theory Spec2Isabelle
  imports Main
begin

section \<open>Strings and paths\<close>

text \<open>
  Python strings are modelled as \<open>string\<close>. \<open>str.lower\<close> is modelled on the ASCII
  letters; every other character is left as it is.
\<close>

definition lower_char :: "char \<Rightarrow> char" where
  "lower_char c =
     (case map_of (zip ''ABCDEFGHIJKLMNOPQRSTUVWXYZ'' ''abcdefghijklmnopqrstuvwxyz'') c of
        Some l \<Rightarrow> l
      | None \<Rightarrow> c)"

definition upper_char :: "char \<Rightarrow> char" where
  "upper_char c =
     (case map_of (zip ''abcdefghijklmnopqrstuvwxyz'' ''ABCDEFGHIJKLMNOPQRSTUVWXYZ'') c of
        Some u \<Rightarrow> u
      | None \<Rightarrow> c)"

definition lower :: "string \<Rightarrow> string" where
  "lower s = map lower_char s"

definition upper :: "string \<Rightarrow> string" where
  "upper s = map upper_char s"

text \<open>The decimal form of a natural number, as an f-string prints the counter.\<close>

definition digit_char :: "nat \<Rightarrow> char" where
  "digit_char d = ''0123456789'' ! d"

definition digit_val :: "char \<Rightarrow> nat" where
  "digit_val c = length (takeWhile (\<lambda>x. x \<noteq> c) ''0123456789'')"

function str_nat :: "nat \<Rightarrow> string" where
  "str_nat n =
     (if n < 10 then [digit_char n] else str_nat (n div 10) @ [digit_char (n mod 10)])"
  by pat_completeness auto
termination
  by (relation "measure id") auto

declare str_nat.simps [simp del]

definition nat_of_str :: "string \<Rightarrow> nat" where
  "nat_of_str s = foldl (\<lambda>a c. 10 * a + digit_val c) 0 s"

text \<open>
  A path is the list of its components below the filesystem root; the root is \<open>[]\<close>.
  \<open>path_name\<close>, \<open>path_parent\<close>, \<open>name_stem\<close> and \<open>name_suffix\<close> are pathlib's
  \<open>name\<close>, \<open>parent\<close>, \<open>stem\<close> and \<open>suffix\<close>: the suffix starts at the last dot of
  the name, unless that dot is the first or the last character.
\<close>

type_synonym path = "string list"

definition path_name :: "path \<Rightarrow> string" where
  "path_name p = (case p of [] \<Rightarrow> [] | _ # _ \<Rightarrow> last p)"

definition path_parent :: "path \<Rightarrow> path" where
  "path_parent p = butlast p"

definition after_dot :: "string \<Rightarrow> string" where
  "after_dot n = rev (takeWhile (\<lambda>c. c \<noteq> CHR ''.'') (rev n))"

definition has_suffix :: "string \<Rightarrow> bool" where
  "has_suffix n \<longleftrightarrow>
     CHR ''.'' \<in> set n \<and> after_dot n \<noteq> [] \<and> Suc (length (after_dot n)) < length n"

definition name_suffix :: "string \<Rightarrow> string" where
  "name_suffix n = (if has_suffix n then CHR ''.'' # after_dot n else [])"

definition name_stem :: "string \<Rightarrow> string" where
  "name_stem n = (if has_suffix n then take (length n - Suc (length (after_dot n))) n else n)"

section \<open>Classifier\<close>

text \<open>
  The extension map is a Python dict from category to extension list; its iteration
  order is the insertion order, so it is an association list here.
\<close>

type_synonym ext_map = "(string \<times> string list) list"

definition DEFAULT_OTHER :: string where
  "DEFAULT_OTHER = ''Others''"

definition DEFAULT_EXT_MAP :: ext_map where
  "DEFAULT_EXT_MAP =
     [(''Images'', [''.jpg'', ''.jpeg'', ''.png'', ''.gif'', ''.bmp'', ''.tiff'', ''.webp'', ''.heic'']),
      (''Videos'', [''.mp4'', ''.mkv'', ''.mov'', ''.avi'', ''.wmv'', ''.flv'', ''.webm'']),
      (''Documents'', [''.pdf'', ''.doc'', ''.docx'', ''.ppt'', ''.pptx'', ''.xls'', ''.xlsx'',
                       ''.odt'', ''.txt'', ''.md'']),
      (''Archives'', [''.zip'', ''.rar'', ''.7z'', ''.tar'', ''.gz'', ''.bz2'']),
      (''Code'', [''.py'', ''.js'', ''.ts'', ''.java'', ''.c'', ''.cpp'', ''.cs'', ''.html'',
                  ''.css'', ''.go'', ''.rs'']),
      (''Music'', [''.mp3'', ''.wav'', ''.flac'', ''.aac'', ''.m4a'', ''.ogg''])]"

text \<open>The loop of \<open>find_category_by_ext\<close> over the items of the map, \<open>ext\<close> already lowered.\<close>

fun find_category_loop :: "ext_map \<Rightarrow> string \<Rightarrow> string" where
  "find_category_loop [] ext = DEFAULT_OTHER"
| "find_category_loop ((cat, exts) # rest) ext =
     (if ext \<in> set exts then cat else find_category_loop rest ext)"

definition find_category_by_ext :: "ext_map \<Rightarrow> string \<Rightarrow> string" where
  "find_category_by_ext em ext = find_category_loop em (lower ext)"

section \<open>Properties of the classifier\<close>

lemma lower_char_upper_char: "lower_char (upper_char c) = lower_char c"
proof (cases "map_of (zip ''abcdefghijklmnopqrstuvwxyz'' ''ABCDEFGHIJKLMNOPQRSTUVWXYZ'') c")
  case None
  then show ?thesis by (simp add: upper_char_def)
next
  case (Some u)
  then have "c \<in> set ''abcdefghijklmnopqrstuvwxyz''"
    by (meson map_of_SomeD set_zip_leftD)
  then show ?thesis
    by (auto simp: upper_char_def lower_char_def)
qed

lemma lower_upper: "lower (upper s) = lower s"
  by (simp add: lower_def upper_def lower_char_upper_char)

lemma lower_char_idem: "lower_char (lower_char c) = lower_char c"
proof (cases "map_of (zip ''ABCDEFGHIJKLMNOPQRSTUVWXYZ'' ''abcdefghijklmnopqrstuvwxyz'') c")
  case None
  then show ?thesis by (simp add: lower_char_def)
next
  case (Some l)
  then have "c \<in> set ''ABCDEFGHIJKLMNOPQRSTUVWXYZ''"
    by (meson map_of_SomeD set_zip_leftD)
  then show ?thesis
    by (auto simp: lower_char_def)
qed

lemma lower_idem: "lower (lower s) = lower s"
  by (simp add: lower_def lower_char_idem)

lemma find_category_loop_none:
  "\<forall>(c, es) \<in> set em. ext \<notin> set es \<Longrightarrow> find_category_loop em ext = DEFAULT_OTHER"
  by (induction em ext rule: find_category_loop.induct) auto

lemma find_category_loop_first:
  "\<forall>(c, es) \<in> set pre. ext \<notin> set es \<Longrightarrow> ext \<in> set exts \<Longrightarrow>
   find_category_loop (pre @ (cat, exts) # post) ext = cat"
  by (induction pre ext rule: find_category_loop.induct) auto

text \<open>
  C6. If the lowered extension is in the extension list of a category and in that of no
  category before it in the map, \<open>find_category_by_ext\<close> returns that category; if it
  is in no list, the result is \<open>''Others''\<close>; and two extensions that differ in letter case
  only (in particular an extension, its upper-case and its lower-case form) get the same
  category.
\<close>

theorem find_category_by_ext_spec:
  "((\<forall>(c, es) \<in> set pre. lower ext \<notin> set es) \<and> lower ext \<in> set exts \<longrightarrow>
      find_category_by_ext (pre @ (cat, exts) # post) ext = cat) \<and>
   ((\<forall>(c, es) \<in> set em. lower ext \<notin> set es) \<longrightarrow>
      find_category_by_ext em ext = ''Others'') \<and>
   (lower ext = lower ext' \<longrightarrow>
      find_category_by_ext em ext = find_category_by_ext em ext') \<and>
   find_category_by_ext em (upper ext) = find_category_by_ext em ext \<and>
   find_category_by_ext em (lower ext) = find_category_by_ext em ext"
proof (intro conjI impI)
  assume "(\<forall>(c, es) \<in> set pre. lower ext \<notin> set es) \<and> lower ext \<in> set exts"
  then show "find_category_by_ext (pre @ (cat, exts) # post) ext = cat"
    by (simp add: find_category_by_ext_def find_category_loop_first)
next
  assume "\<forall>(c, es) \<in> set em. lower ext \<notin> set es"
  then have "find_category_loop em (lower ext) = DEFAULT_OTHER"
    by (rule find_category_loop_none)
  then show "find_category_by_ext em ext = ''Others''"
    by (simp add: find_category_by_ext_def DEFAULT_OTHER_def)
next
  assume "lower ext = lower ext'"
  then show "find_category_by_ext em ext = find_category_by_ext em ext'"
    by (simp add: find_category_by_ext_def)
next
  show "find_category_by_ext em (upper ext) = find_category_by_ext em ext"
    by (simp add: find_category_by_ext_def lower_upper)
next
  show "find_category_by_ext em (lower ext) = find_category_by_ext em ext"
    by (simp add: find_category_by_ext_def lower_idem)
qed

theorem find_category_by_ext_spec_witness:
  "find_category_by_ext
     [(''Images'', [''.jpg'', ''.png'']), (''Pictures'', [''.png'']), (''Code'', [''.py''])]
     ''.PNG'' = ''Images'' \<and>
   find_category_by_ext [(''Images'', [''.jpg'', ''.png'']), (''Code'', [''.py''])] ''.Xyz''
     = ''Others'' \<and>
   find_category_by_ext DEFAULT_EXT_MAP ''.Py'' = find_category_by_ext DEFAULT_EXT_MAP ''.pY''"
proof -
  have l1: "lower ''.PNG'' = ''.png''" and l2: "lower ''.Xyz'' = ''.xyz''"
    and l3: "lower ''.Py'' = lower ''.pY''"
    by (simp_all add: lower_def lower_char_def)
  have h1: "(\<forall>(c, es) \<in> set []. lower ''.PNG'' \<notin> set es) \<and>
      lower ''.PNG'' \<in> set [''.jpg'', ''.png'']"
    by (simp add: l1)
  have h2: "\<forall>(c, es) \<in> set [(''Images'', [''.jpg'', ''.png'']), (''Code'', [''.py''])].
      lower ''.Xyz'' \<notin> set es"
    by (simp add: l2)
  note spec = find_category_by_ext_spec
    [of "[]" _ "[''.jpg'', ''.png'']" "''Images''"
      "[(''Pictures'', [''.png'']), (''Code'', [''.py''])]"]
  have c1: "find_category_by_ext
     ([] @ (''Images'', [''.jpg'', ''.png'']) # [(''Pictures'', [''.png'']), (''Code'', [''.py''])])
     ''.PNG'' = ''Images''"
    using spec [of "''.PNG''", THEN conjunct1] h1 by (rule mp)
  have c2: "find_category_by_ext [(''Images'', [''.jpg'', ''.png'']), (''Code'', [''.py''])]
     ''.Xyz'' = ''Others''"
    using spec [of "''.Xyz''", THEN conjunct2, THEN conjunct1] h2 by (rule mp)
  have c3: "find_category_by_ext DEFAULT_EXT_MAP ''.Py'' =
     find_category_by_ext DEFAULT_EXT_MAP ''.pY''"
    using spec [of "''.Py''", THEN conjunct2, THEN conjunct2, THEN conjunct1] l3 by (rule mp)
  from c1 c2 c3 show ?thesis by simp
qed

section \<open>Filesystem\<close>

text \<open>
  A regular file has its bytes, the year and month of its modification time, and two
  flags that say whether the operating system lets it be opened for reading and lets
  its directory entry be removed or renamed. A symbolic link holds its target, an
  absolute path. The filesystem is the list of its entries under their real paths (no
  component of an entry's path is a link), in directory order; the root always exists and
  is a directory. Paths are absolute and have no \<open>.\<close> or \<open>..\<close> components, and
  everything is on one device.
\<close>

record regular_file =
  content :: string
  mtime_year :: nat
  mtime_month :: nat
  readable :: bool
  removable :: bool

datatype node = Dir | File regular_file | Link path

type_synonym filesystem = "(path \<times> node) list"

text \<open>
  Path resolution as the kernel does it: component by component, a symbolic link is
  replaced by its target, at most 40 times. \<open>walk fuel fs cur rest\<close> has resolved \<open>cur\<close>
  and still has \<open>rest\<close> to go; the result is \<open>None\<close> when the links go round in a loop.
\<close>

function walk :: "nat \<Rightarrow> filesystem \<Rightarrow> path \<Rightarrow> path \<Rightarrow> path option" where
  "walk fuel fs cur [] = Some cur"
| "walk fuel fs cur (c # rest) =
     (case map_of fs (cur @ [c]) of
        Some (Link t) \<Rightarrow> (if fuel = 0 then None else walk (fuel - 1) fs [] (t @ rest))
      | _ \<Rightarrow> walk fuel fs (cur @ [c]) rest)"
  by pat_completeness auto
termination
  by (relation "inv_image (less_than <*lex*> less_than)
      (\<lambda>(fuel, fs, cur, rest). (fuel, length rest))") auto

definition node_at :: "filesystem \<Rightarrow> path \<Rightarrow> node option" where
  "node_at fs q = (if q = [] then Some Dir else map_of fs q)"

text \<open>\<open>stat\<close> follows every link; \<open>lstat\<close> follows the links of the parent only.\<close>

definition stat_node :: "filesystem \<Rightarrow> path \<Rightarrow> node option" where
  "stat_node fs p = (case walk 40 fs [] p of None \<Rightarrow> None | Some q \<Rightarrow> node_at fs q)"

definition lresolve :: "filesystem \<Rightarrow> path \<Rightarrow> path option" where
  "lresolve fs p =
     (if p = [] then Some []
      else (case walk 40 fs [] (butlast p) of
              None \<Rightarrow> None
            | Some d \<Rightarrow> Some (d @ [last p])))"

definition lstat_node :: "filesystem \<Rightarrow> path \<Rightarrow> node option" where
  "lstat_node fs p = (case lresolve fs p of None \<Rightarrow> None | Some q \<Rightarrow> node_at fs q)"

text \<open>\<open>Path.exists\<close>: a dangling link does not exist.\<close>

definition path_exists :: "filesystem \<Rightarrow> path \<Rightarrow> bool" where
  "path_exists fs p \<longleftrightarrow> stat_node fs p \<noteq> None"

definition candidate :: "path \<Rightarrow> nat \<Rightarrow> path" where
  "candidate dest counter =
     path_parent dest @
       [name_stem (path_name dest) @ ''_'' @ str_nat counter @ name_suffix (path_name dest)]"

lemma digit_val_digit_char: "d < 10 \<Longrightarrow> digit_val (digit_char d) = d"
proof -
  assume "d < 10"
  then have "d \<in> {0, 1, 2, 3, 4, 5, 6, 7, 8, 9}" by auto
  then show ?thesis
    by (auto simp: digit_val_def digit_char_def)
qed

lemma nat_of_str_str_nat: "nat_of_str (str_nat n) = n"
proof (induction n rule: str_nat.induct)
  case (1 n)
  show ?case
  proof (cases "n < 10")
    case True
    then show ?thesis
      by (subst str_nat.simps) (simp add: nat_of_str_def digit_val_digit_char)
  next
    case False
    with 1 have ih: "nat_of_str (str_nat (n div 10)) = n div 10" by simp
    have "nat_of_str (str_nat n) =
        10 * nat_of_str (str_nat (n div 10)) + digit_val (digit_char (n mod 10))"
      using False by (subst str_nat.simps) (simp add: nat_of_str_def)
    also have "\<dots> = 10 * (n div 10) + n mod 10"
      by (simp add: ih digit_val_digit_char)
    finally show ?thesis by simp
  qed
qed

lemma str_nat_inj: "str_nat m = str_nat n \<Longrightarrow> m = n"
  by (metis nat_of_str_str_nat)

lemma candidate_inj: "candidate dest j = candidate dest k \<Longrightarrow> j = k"
  by (simp add: candidate_def str_nat_inj)

lemma map_of_in_keys: "map_of fs p = Some n \<Longrightarrow> p \<in> fst ` set fs"
  by (metis map_of_eq_None_iff option.distinct(1))

text \<open>A path that exists ends in the name of some entry: that of the path or of a link.\<close>

lemma walk_last_component:
  "walk fuel fs cur rest = Some q \<Longrightarrow> rest = rest' @ [n] \<Longrightarrow> node_at fs q \<noteq> None \<Longrightarrow>
   \<exists>R. R @ [n] \<in> fst ` set fs"
proof (induction fuel fs cur rest arbitrary: rest' rule: walk.induct)
  case (1 fuel fs cur)
  then show ?case by simp
next
  case (2 fuel fs cur c rest)
  show ?case
  proof (cases rest rule: rev_cases)
    case Nil
    with "2.prems"(2) have c: "c = n" by simp
    show ?thesis
    proof (cases "\<exists>t. map_of fs (cur @ [c]) = Some (Link t)")
      case True
      then have "cur @ [n] \<in> fst ` set fs"
        using c by (auto dest: map_of_in_keys)
      then show ?thesis ..
    next
      case False
      with "2.prems"(1) Nil have "q = cur @ [c]"
        by (auto split: option.splits node.splits)
      with "2.prems"(3) c have "cur @ [n] \<in> fst ` set fs"
        by (auto simp: node_at_def dest: map_of_in_keys)
      then show ?thesis ..
    qed
  next
    case (snoc r m)
    with "2.prems"(2) have m: "m = n" by simp
    show ?thesis
    proof (cases "map_of fs (cur @ [c])")
      case None
      with "2.prems"(1) have "walk fuel fs (cur @ [c]) rest = Some q" by simp
      from "2.IH"(1) [OF None this _ "2.prems"(3)] snoc m show ?thesis by simp
    next
      case (Some x)
      show ?thesis
      proof (cases x)
        case Dir
        with Some "2.prems"(1) have "walk fuel fs (cur @ [c]) rest = Some q" by simp
        from "2.IH"(2) [OF Some Dir this _ "2.prems"(3)] snoc m show ?thesis by simp
      next
        case (File f)
        with Some "2.prems"(1) have "walk fuel fs (cur @ [c]) rest = Some q" by simp
        from "2.IH"(3) [OF Some File this _ "2.prems"(3)] snoc m show ?thesis by simp
      next
        case (Link t)
        with Some "2.prems"(1) have f: "fuel \<noteq> 0"
          and w: "walk (fuel - 1) fs [] (t @ rest) = Some q"
          by (auto split: if_splits)
        have "t @ rest = (t @ r) @ [n]" using snoc m by simp
        from "2.IH"(4) [OF Some Link f w this "2.prems"(3)] show ?thesis .
      qed
    qed
  qed
qed

lemma finite_existing_candidates: "finite {k. path_exists fs (candidate dest k)}"
proof -
  let ?name = "\<lambda>k. name_stem (path_name dest) @ ''_'' @ str_nat k @ name_suffix (path_name dest)"
  have "finite (last ` fst ` set fs)" by simp
  moreover have "inj ?name"
    by (rule injI) (simp add: str_nat_inj)
  ultimately have "finite (?name -` (last ` fst ` set fs))"
    by (rule finite_vimageI)
  moreover have "{k. path_exists fs (candidate dest k)} \<subseteq> ?name -` (last ` fst ` set fs)"
  proof
    fix k
    assume "k \<in> {k. path_exists fs (candidate dest k)}"
    then obtain q where "walk 40 fs [] (path_parent dest @ [?name k]) = Some q"
      and "node_at fs q \<noteq> None"
      by (auto simp: path_exists_def stat_node_def candidate_def split: option.splits)
    from walk_last_component [OF this(1) refl this(2)]
    obtain R where "R @ [?name k] \<in> fst ` set fs" ..
    then have "last (R @ [?name k]) \<in> last ` fst ` set fs"
      by (rule imageI)
    then show "k \<in> ?name -` (last ` fst ` set fs)" by simp
  qed
  ultimately show ?thesis by (rule rev_finite_subset)
qed

function make_unique_loop :: "filesystem \<Rightarrow> path \<Rightarrow> nat \<Rightarrow> path" where
  "make_unique_loop fs dest counter =
     (if \<not> path_exists fs (candidate dest counter) then candidate dest counter
      else make_unique_loop fs dest (counter + 1))"
  by pat_completeness auto
termination
proof (relation "measure (\<lambda>(fs, dest, c). card {k. c \<le> k \<and> path_exists fs (candidate dest k)})",
    goal_cases)
  case 1
  show ?case by simp
next
  case (2 fs dest c)
  let ?E = "\<lambda>k. path_exists fs (candidate dest k)"
  have fin: "finite {k. c \<le> k \<and> ?E k}"
    using finite_existing_candidates [of fs dest] by simp
  have "c \<in> {k. c \<le> k \<and> ?E k}" and "c \<notin> {k. c + 1 \<le> k \<and> ?E k}"
    using 2 by simp_all
  moreover have "{k. c + 1 \<le> k \<and> ?E k} \<subseteq> {k. c \<le> k \<and> ?E k}"
    by auto
  ultimately have "{k. c + 1 \<le> k \<and> ?E k} \<subset> {k. c \<le> k \<and> ?E k}"
    by blast
  then have "card {k. c + 1 \<le> k \<and> ?E k} < card {k. c \<le> k \<and> ?E k}"
    using fin by (simp add: psubset_card_mono)
  then show ?case by simp
qed

declare make_unique_loop.simps [simp del]

definition make_unique_path :: "filesystem \<Rightarrow> path \<Rightarrow> path" where
  "make_unique_path fs dest =
     (if \<not> path_exists fs dest then dest else make_unique_loop fs dest 1)"


lemma make_unique_loop_not_exists: "\<not> path_exists fs (make_unique_loop fs dest c)"
proof (induction fs dest c rule: make_unique_loop.induct)
  case (1 fs dest counter)
  show ?case
  proof (cases "path_exists fs (candidate dest counter)")
    case True
    with 1 show ?thesis by (subst make_unique_loop.simps) simp
  next
    case False
    then show ?thesis by (subst make_unique_loop.simps) simp
  qed
qed

lemma make_unique_path_not_exists: "\<not> path_exists fs (make_unique_path fs dest)"
  by (simp add: make_unique_path_def make_unique_loop_not_exists)









section \<open>Filesystem operations\<close>

text \<open>The exceptions that the modelled calls raise.\<close>

datatype error =
    FileNotFoundError
  | FileExistsError
  | NotADirectoryError
  | IsADirectoryError
  | PermissionError
  | SameFileError
  | ShutilError
  | OSError
  | KeyError
  | TypeError
  | AttributeError

text \<open>
  \<open>Path.is_dir\<close> and \<open>Path.is_file\<close> follow links; \<open>os.path.islink\<close> looks at the entry
  itself.
\<close>

definition is_dir :: "filesystem \<Rightarrow> path \<Rightarrow> bool" where
  "is_dir fs p \<longleftrightarrow> stat_node fs p = Some Dir"

definition is_file :: "filesystem \<Rightarrow> path \<Rightarrow> bool" where
  "is_file fs p \<longleftrightarrow> (case stat_node fs p of Some (File f) \<Rightarrow> True | _ \<Rightarrow> False)"

definition is_link :: "filesystem \<Rightarrow> path \<Rightarrow> bool" where
  "is_link fs p \<longleftrightarrow> (case lstat_node fs p of Some (Link t) \<Rightarrow> True | _ \<Rightarrow> False)"

definition samefile :: "filesystem \<Rightarrow> path \<Rightarrow> path \<Rightarrow> bool" where
  "samefile fs a b \<longleftrightarrow>
     (case (walk 40 fs [] a, walk 40 fs [] b) of
        (Some x, Some y) \<Rightarrow> x = y \<and> node_at fs x \<noteq> None
      | _ \<Rightarrow> False)"

definition under :: "path \<Rightarrow> path \<Rightarrow> bool" where
  "under d p \<longleftrightarrow> length d < length p \<and> take (length d) p = d"

text \<open>
  \<open>list_files\<close>. \<open>iterdir\<close> lists the entries of the directory that the target resolves
  to, and raises when that is no directory. \<open>rglob\<close> yields nothing then; it descends
  into directories but not into links to directories. Every path that is listed is the
  target followed by names, and is kept when \<open>is_file\<close> holds of it. The order of the
  result is the directory order of the filesystem.
\<close>

definition real_dirs_between :: "filesystem \<Rightarrow> path \<Rightarrow> path \<Rightarrow> bool" where
  "real_dirs_between fs r q \<longleftrightarrow>
     list_all (\<lambda>n. map_of fs (take n q) = Some Dir) [Suc (length r)..<length q]"

definition list_files :: "path \<Rightarrow> bool \<Rightarrow> filesystem \<Rightarrow> error + path list" where
  "list_files target recursive fs =
     (case walk 40 fs [] target of
        None \<Rightarrow> (if recursive then Inr [] else Inl OSError)
      | Some r \<Rightarrow>
          if recursive then
            (if node_at fs r = Some Dir then
               Inr [p \<leftarrow> map (\<lambda>q. target @ drop (length r) q)
                           [q \<leftarrow> map fst fs. under r q \<and> real_dirs_between fs r q].
                    is_file fs p]
             else Inr [])
          else
            (case node_at fs r of
               None \<Rightarrow> Inl FileNotFoundError
             | Some Dir \<Rightarrow>
                 Inr [p \<leftarrow> map (\<lambda>q. target @ [last q])
                             [q \<leftarrow> map fst fs. q \<noteq> [] \<and> butlast q = r].
                      is_file fs p]
             | Some _ \<Rightarrow> Inl NotADirectoryError))"

text \<open>\<open>os.mkdir\<close>, and \<open>Path.mkdir(parents=True, exist_ok=True)\<close> as pathlib writes it.\<close>

definition os_mkdir :: "path \<Rightarrow> filesystem \<Rightarrow> error + filesystem" where
  "os_mkdir p fs =
     (case lresolve fs p of
        None \<Rightarrow> Inl OSError
      | Some lp \<Rightarrow>
          if node_at fs lp \<noteq> None then Inl FileExistsError
          else (case node_at fs (butlast lp) of
                  None \<Rightarrow> Inl FileNotFoundError
                | Some Dir \<Rightarrow> Inr (fs @ [(lp, Dir)])
                | Some _ \<Rightarrow> Inl NotADirectoryError))"

function mkdir :: "path \<Rightarrow> filesystem \<Rightarrow> error + filesystem" where
  "mkdir p fs =
     (case os_mkdir p fs of
        Inr fs' \<Rightarrow> Inr fs'
      | Inl e \<Rightarrow>
          if e = FileNotFoundError then
            (if p = [] then Inl e
             else (case mkdir (path_parent p) fs of
                     Inl e' \<Rightarrow> Inl e'
                   | Inr fs' \<Rightarrow>
                       (case os_mkdir p fs' of
                          Inr fs'' \<Rightarrow> Inr fs''
                        | Inl e' \<Rightarrow>
                            if e' \<noteq> FileNotFoundError \<and> is_dir fs' p then Inr fs'
                            else Inl e')))
          else if is_dir fs p then Inr fs
          else Inl e)"
  by pat_completeness auto
termination
  by (relation "measure (\<lambda>(p, fs). length p)") (auto simp: path_parent_def)

declare mkdir.simps [simp del]

text \<open>
  \<open>os.rename\<close> acts on the entry itself: a link is renamed, not its target, and an entry
  that is in the way is replaced when the kinds allow it. A regular file that is not
  removable cannot be renamed. A directory moves with everything below it.
\<close>

definition rename_entries :: "node \<Rightarrow> path \<Rightarrow> path \<Rightarrow> filesystem \<Rightarrow> filesystem" where
  "rename_entries n ls ld fs =
     map (\<lambda>(p, m). (if p = ls \<or> (n = Dir \<and> under ls p) then ld @ drop (length ls) p else p, m))
       [e \<leftarrow> fs. fst e \<noteq> ld]"

definition os_rename :: "path \<Rightarrow> path \<Rightarrow> filesystem \<Rightarrow> error + filesystem" where
  "os_rename source dest fs =
     (case (lresolve fs source, lresolve fs dest) of
        (Some ls, Some ld) \<Rightarrow>
          (if ls = [] \<or> ld = [] then Inl OSError
           else (case map_of fs ls of
                   None \<Rightarrow> Inl FileNotFoundError
                 | Some n \<Rightarrow>
                     if node_at fs (butlast ld) = None then Inl FileNotFoundError
                     else if node_at fs (butlast ld) \<noteq> Some Dir then Inl NotADirectoryError
                     else if (case n of File r \<Rightarrow> \<not> removable r | _ \<Rightarrow> False)
                       then Inl PermissionError
                     else if ls = ld then Inr fs
                     else if n = Dir \<and> under ls ld then Inl OSError
                     else
                       (case map_of fs ld of
                          None \<Rightarrow> Inr (rename_entries n ls ld fs)
                        | Some Dir \<Rightarrow>
                            if n \<noteq> Dir then Inl IsADirectoryError
                            else if list_ex (under ld) (map fst fs) then Inl OSError
                            else Inr (rename_entries n ls ld fs)
                        | Some _ \<Rightarrow>
                            if n = Dir then Inl NotADirectoryError
                            else Inr (rename_entries n ls ld fs))))
      | _ \<Rightarrow> Inl OSError)"

definition os_unlink :: "path \<Rightarrow> filesystem \<Rightarrow> error + filesystem" where
  "os_unlink p fs =
     (case lresolve fs p of
        None \<Rightarrow> Inl OSError
      | Some lp \<Rightarrow>
          (case node_at fs lp of
             None \<Rightarrow> Inl FileNotFoundError
           | Some Dir \<Rightarrow> Inl IsADirectoryError
           | Some (File r) \<Rightarrow>
               if removable r then Inr [e \<leftarrow> fs. fst e \<noteq> lp] else Inl PermissionError
           | Some (Link t) \<Rightarrow> Inr [e \<leftarrow> fs. fst e \<noteq> lp]))"

definition os_symlink :: "path \<Rightarrow> path \<Rightarrow> filesystem \<Rightarrow> error + filesystem" where
  "os_symlink linkto p fs =
     (case lresolve fs p of
        None \<Rightarrow> Inl OSError
      | Some lp \<Rightarrow>
          if node_at fs lp \<noteq> None then Inl FileExistsError
          else (case node_at fs (butlast lp) of
                  None \<Rightarrow> Inl FileNotFoundError
                | Some Dir \<Rightarrow> Inr (fs @ [(lp, Link linkto)])
                | Some _ \<Rightarrow> Inl NotADirectoryError))"

text \<open>
  \<open>shutil.copy2\<close>: the source is opened for reading and the destination for writing, both
  through links. A new file is removable; a file that is written over keeps its entry.
\<close>

definition copyfile :: "path \<Rightarrow> path \<Rightarrow> filesystem \<Rightarrow> error + filesystem" where
  "copyfile source dest fs =
     (if samefile fs source dest then Inl SameFileError
      else (case stat_node fs source of
              Some (File r) \<Rightarrow>
                if \<not> readable r then Inl PermissionError
                else (case walk 40 fs [] dest of
                        None \<Rightarrow> Inl OSError
                      | Some rd \<Rightarrow>
                          (case node_at fs rd of
                             None \<Rightarrow>
                               if node_at fs (butlast rd) = Some Dir
                               then Inr (fs @ [(rd, File (r\<lparr>removable := True\<rparr>))])
                               else Inl FileNotFoundError
                           | Some Dir \<Rightarrow> Inl IsADirectoryError
                           | Some (File old) \<Rightarrow>
                               Inr (map (\<lambda>(p, m).
                                      if p = rd then (p, File (r\<lparr>removable := removable old\<rparr>))
                                      else (p, m)) fs)
                           | Some (Link t) \<Rightarrow> Inl OSError))
            | Some Dir \<Rightarrow> Inl IsADirectoryError
            | _ \<Rightarrow> (if walk 40 fs [] source = None then Inl OSError else Inl FileNotFoundError)))"

definition copy2 :: "path \<Rightarrow> path \<Rightarrow> filesystem \<Rightarrow> error + filesystem" where
  "copy2 source dest fs =
     copyfile source (if is_dir fs dest then dest @ [path_name source] else dest) fs"

text \<open>
  What the library gives and the model does not compute: the clock, \<open>utcnow\<close> at its
  n-th reading within a call; the modification time (year, month) of a directory; and
  \<open>move_tree\<close>, the outcome of \<open>copytree\<close> followed by \<open>rmtree\<close>, by which \<open>shutil.move\<close>
  moves a directory that \<open>os.rename\<close> could not move.
\<close>

record library =
  utcnow :: "nat \<Rightarrow> string"
  dir_mtime :: "path \<Rightarrow> nat \<times> nat"
  move_tree :: "path \<Rightarrow> path \<Rightarrow> filesystem \<Rightarrow> error option \<times> filesystem"

text \<open>
  \<open>shutil.move\<close>: \<open>os.rename\<close> first; when that raises, a link is made anew at the
  destination and removed at the source, and a regular file is copied with \<open>copy2\<close> and
  then unlinked at the source, so that a raising \<open>os.unlink\<close> leaves the copy behind.
\<close>

definition move_to :: "library \<Rightarrow> path \<Rightarrow> path \<Rightarrow> path \<Rightarrow> filesystem \<Rightarrow> error option \<times> filesystem" where
  "move_to lib source dest real_dst fs =
     (case os_rename source real_dst fs of
        Inr fs' \<Rightarrow> (None, fs')
      | Inl e \<Rightarrow>
          if is_link fs source then
            (case lstat_node fs source of
               Some (Link linkto) \<Rightarrow>
                 (case os_symlink linkto real_dst fs of
                    Inl e' \<Rightarrow> (Some e', fs)
                  | Inr fs1 \<Rightarrow>
                      (case os_unlink source fs1 of
                         Inl e' \<Rightarrow> (Some e', fs1)
                       | Inr fs2 \<Rightarrow> (None, fs2)))
             | _ \<Rightarrow> (Some OSError, fs))
          else if is_dir fs source then
            (if dest = source \<or> under source dest then (Some ShutilError, fs)
             else move_tree lib source real_dst fs)
          else
            (case copy2 source real_dst fs of
               Inl e' \<Rightarrow> (Some e', fs)
             | Inr fs1 \<Rightarrow>
                 (case os_unlink source fs1 of
                    Inl e' \<Rightarrow> (Some e', fs1)
                  | Inr fs2 \<Rightarrow> (None, fs2))))"

definition shutil_move :: "library \<Rightarrow> path \<Rightarrow> path \<Rightarrow> filesystem \<Rightarrow> error option \<times> filesystem" where
  "shutil_move lib source dest fs =
     (if is_dir fs dest then
        (if samefile fs source dest then
           (case os_rename source dest fs of
              Inl e \<Rightarrow> (Some e, fs)
            | Inr fs' \<Rightarrow> (None, fs'))
         else if path_exists fs (dest @ [path_name source]) then (Some ShutilError, fs)
         else move_to lib source dest (dest @ [path_name source]) fs)
      else move_to lib source dest dest fs)"

section \<open>Organize engine\<close>

record move_record =
  src :: path
  dst :: path
  time :: string
  dry :: bool

text \<open>
  The part of the loop body that both strategies share: create the destination
  directory, allocate the destination path, build the record, and move unless
  \<open>dry_run\<close>. \<open>now\<close> is what \<open>datetime.utcnow().isoformat()\<close> returns.
\<close>

definition place ::
  "library \<Rightarrow> path \<Rightarrow> string \<Rightarrow> bool \<Rightarrow> string \<Rightarrow> path \<Rightarrow> filesystem \<Rightarrow>
   (error + move_record) \<times> filesystem"
where
  "place lib target folder dry_run now f fs =
     (let dest_dir = target @ [folder] in
      case mkdir dest_dir fs of
        Inl e \<Rightarrow> (Inl e, fs)
      | Inr fs1 \<Rightarrow>
          (let dest = make_unique_path fs1 (dest_dir @ [path_name f]);
               move_rec = \<lparr>src = f, dst = dest, time = now, dry = dry_run\<rparr>
           in if \<not> dry_run then
                (case shutil_move lib f dest fs1 of
                   (Some e, fs2) \<Rightarrow> (Inl e, fs2)
                 | (None, fs2) \<Rightarrow> (Inr move_rec, fs2))
              else (Inr move_rec, fs1)))"

definition type_step ::
  "library \<Rightarrow> path \<Rightarrow> ext_map \<Rightarrow> bool \<Rightarrow> string \<Rightarrow> path \<Rightarrow> filesystem \<Rightarrow>
   (error + move_record) \<times> filesystem"
where
  "type_step lib target em dry_run now f fs =
     (let ext = lower (name_suffix (path_name f));
          cat = find_category_by_ext em ext
      in place lib target cat dry_run now f fs)"

fun organize_by_type_loop ::
  "library \<Rightarrow> path \<Rightarrow> ext_map \<Rightarrow> bool \<Rightarrow> path list \<Rightarrow> move_record list \<Rightarrow> filesystem \<Rightarrow>
   (error + move_record list) \<times> filesystem"
where
  "organize_by_type_loop lib target em dry_run [] moves fs = (Inr moves, fs)"
| "organize_by_type_loop lib target em dry_run (f # files) moves fs =
     (case type_step lib target em dry_run (utcnow lib (length moves)) f fs of
        (Inl e, fs') \<Rightarrow> (Inl e, fs')
      | (Inr m, fs') \<Rightarrow> organize_by_type_loop lib target em dry_run files (moves @ [m]) fs')"

definition organize_by_type ::
  "library \<Rightarrow> path \<Rightarrow> ext_map \<Rightarrow> bool \<Rightarrow> bool \<Rightarrow> filesystem \<Rightarrow>
   (error + move_record list) \<times> filesystem"
where
  "organize_by_type lib target em dry_run recursive fs =
     (case list_files target recursive fs of
        Inl e \<Rightarrow> (Inl e, fs)
      | Inr files \<Rightarrow> organize_by_type_loop lib target em dry_run files [] fs)"

definition folder_name :: "nat \<Rightarrow> nat \<Rightarrow> string" where
  "folder_name year month =
     str_nat year @ ''-'' @ (if month < 10 then ''0'' @ str_nat month else str_nat month)"

text \<open>\<open>f.stat()\<close> follows links and raises when the path resolves to nothing.\<close>

definition date_step ::
  "library \<Rightarrow> path \<Rightarrow> bool \<Rightarrow> string \<Rightarrow> path \<Rightarrow> filesystem \<Rightarrow>
   (error + move_record) \<times> filesystem"
where
  "date_step lib target dry_run now f fs =
     (case stat_node fs f of
        Some (File r) \<Rightarrow>
          place lib target (folder_name (mtime_year r) (mtime_month r)) dry_run now f fs
      | Some Dir \<Rightarrow>
          place lib target (folder_name (fst (dir_mtime lib f)) (snd (dir_mtime lib f)))
            dry_run now f fs
      | _ \<Rightarrow>
          (if walk 40 fs [] f = None then (Inl OSError, fs) else (Inl FileNotFoundError, fs)))"

fun organize_by_date_loop ::
  "library \<Rightarrow> path \<Rightarrow> bool \<Rightarrow> path list \<Rightarrow> move_record list \<Rightarrow> filesystem \<Rightarrow>
   (error + move_record list) \<times> filesystem"
where
  "organize_by_date_loop lib target dry_run [] moves fs = (Inr moves, fs)"
| "organize_by_date_loop lib target dry_run (f # files) moves fs =
     (case date_step lib target dry_run (utcnow lib (length moves)) f fs of
        (Inl e, fs') \<Rightarrow> (Inl e, fs')
      | (Inr m, fs') \<Rightarrow> organize_by_date_loop lib target dry_run files (moves @ [m]) fs')"

definition organize_by_date ::
  "library \<Rightarrow> path \<Rightarrow> bool \<Rightarrow> bool \<Rightarrow> filesystem \<Rightarrow>
   (error + move_record list) \<times> filesystem"
where
  "organize_by_date lib target dry_run recursive fs =
     (case list_files target recursive fs of
        Inl e \<Rightarrow> (Inl e, fs)
      | Inr files \<Rightarrow> organize_by_date_loop lib target dry_run files [] fs)"

section \<open>History store\<close>

text \<open>
  The values that \<open>json.load\<close> returns. The history artifact is either missing,
  unreadable (opening or reading it raises), corrupt (\<open>json.load\<close> raises) or holds a
  JSON value; \<open>writable\<close> says whether opening it for writing succeeds.
\<close>

datatype json =
    JNull
  | JBool bool
  | JNum int
  | JStr string
  | JArr "json list"
  | JObj "(string \<times> json) list"

datatype artifact = Missing | Unreadable | Corrupt | Stored json

record store =
  artifact :: artifact
  writable :: bool

text \<open>Python's truth value of a JSON value.\<close>

fun truthy :: "json \<Rightarrow> bool" where
  "truthy JNull \<longleftrightarrow> False"
| "truthy (JBool b) \<longleftrightarrow> b"
| "truthy (JNum n) \<longleftrightarrow> n \<noteq> 0"
| "truthy (JStr s) \<longleftrightarrow> s \<noteq> []"
| "truthy (JArr xs) \<longleftrightarrow> xs \<noteq> []"
| "truthy (JObj kv) \<longleftrightarrow> kv \<noteq> []"

definition save_move_history :: "json \<Rightarrow> store \<Rightarrow> store" where
  "save_move_history history st =
     (if writable st then st\<lparr>artifact := Stored history\<rparr> else st)"

definition load_move_history :: "store \<Rightarrow> json" where
  "load_move_history st =
     (case artifact st of
        Missing \<Rightarrow> JArr []
      | Unreadable \<Rightarrow> JArr []
      | Corrupt \<Rightarrow> JArr []
      | Stored v \<Rightarrow> v)"

text \<open>
  \<open>str(path)\<close> and \<open>Path(string)\<close> for absolute POSIX paths: the components are joined
  with slashes; parsing drops empty components and single dots.
\<close>

definition str_path :: "path \<Rightarrow> string" where
  "str_path p = (if p = [] then ''/'' else concat (map (\<lambda>c. CHR ''/'' # c) p))"

fun split_slash :: "string \<Rightarrow> string list" where
  "split_slash [] = [[]]"
| "split_slash (c # cs) =
     (if c = CHR ''/'' then [] # split_slash cs
      else (case split_slash cs of
              w # ws \<Rightarrow> (c # w) # ws
            | [] \<Rightarrow> [[c]]))"

definition Path :: "string \<Rightarrow> path" where
  "Path s = [c \<leftarrow> split_slash s. c \<noteq> [] \<and> c \<noteq> ''.'']"


text \<open>
  The record that the organize functions build, and the run that \<open>run_organize\<close>
  appends to the history, as the JSON values that the artifact holds.
\<close>

definition json_of_move :: "move_record \<Rightarrow> json" where
  "json_of_move m =
     JObj [(''src'', JStr (str_path (src m))), (''dst'', JStr (str_path (dst m))),
           (''time'', JStr (time m)), (''dry'', JBool (dry m))]"

definition json_of_run :: "string \<Rightarrow> path \<Rightarrow> move_record list \<Rightarrow> json" where
  "json_of_run run_time target moves =
     JObj [(''run_time'', JStr run_time), (''target'', JStr (str_path target)),
           (''moves'', JArr (map json_of_move moves))]"


section \<open>Undo engine\<close>

text \<open>The loop of \<open>undo_last\<close>, over the records as \<open>reversed(moves)\<close> yields them.\<close>

fun undo_moves :: "library \<Rightarrow> json list \<Rightarrow> filesystem \<Rightarrow> error option \<times> filesystem" where
  "undo_moves lib [] fs = (None, fs)"
| "undo_moves lib (rec # recs) fs =
     (case rec of
        JObj kv \<Rightarrow>
          if (case map_of kv ''dry'' of Some v \<Rightarrow> truthy v | None \<Rightarrow> False)
          then undo_moves lib recs fs
          else
            (case map_of kv ''src'' of
               None \<Rightarrow> (Some KeyError, fs)
             | Some (JStr s) \<Rightarrow>
                 (case map_of kv ''dst'' of
                    None \<Rightarrow> (Some KeyError, fs)
                  | Some (JStr d) \<Rightarrow>
                      if path_exists fs (Path d) then
                        (case shutil_move lib (Path d) (make_unique_path fs (Path s)) fs of
                           (Some e, fs') \<Rightarrow> (Some e, fs')
                         | (None, fs') \<Rightarrow> undo_moves lib recs fs')
                      else undo_moves lib recs fs
                  | Some _ \<Rightarrow> (Some TypeError, fs))
             | Some _ \<Rightarrow> (Some TypeError, fs))
      | _ \<Rightarrow> (Some AttributeError, fs))"

text \<open>What the message box of \<open>undo_last\<close> says.\<close>

datatype undo_result = NoHistory | Restored nat

definition undo_finish ::
  "json list \<Rightarrow> nat \<Rightarrow> error option \<times> filesystem \<Rightarrow> store \<Rightarrow>
   (error + undo_result) \<times> store \<times> filesystem"
where
  "undo_finish history n r st =
     (case r of
        (Some e, fs') \<Rightarrow> (Inl e, st, fs')
      | (None, fs') \<Rightarrow> (Inr (Restored n), save_move_history (JArr history) st, fs'))"

definition undo_last ::
  "library \<Rightarrow> store \<Rightarrow> filesystem \<Rightarrow> (error + undo_result) \<times> store \<times> filesystem"
where
  "undo_last lib st fs =
     (let history = load_move_history st in
      if \<not> truthy history then (Inr NoHistory, st, fs)
      else
        (case history of
           JArr hs \<Rightarrow>
             (case last hs of
                JObj kv \<Rightarrow>
                  (case (case map_of kv ''moves'' of Some v \<Rightarrow> v | None \<Rightarrow> JArr []) of
                     JArr moves \<Rightarrow>
                       undo_finish (butlast hs) (length moves) (undo_moves lib (rev moves) fs) st
                   | JStr s \<Rightarrow>
                       if s = [] then undo_finish (butlast hs) 0 (None, fs) st
                       else (Inl AttributeError, st, fs)
                   | JObj d \<Rightarrow>
                       if d = [] then undo_finish (butlast hs) 0 (None, fs) st
                       else (Inl AttributeError, st, fs)
                   | _ \<Rightarrow> (Inl TypeError, st, fs))
              | _ \<Rightarrow> (Inl AttributeError, st, fs))
         | JObj d \<Rightarrow> (Inl TypeError, st, fs)
         | _ \<Rightarrow> (Inl AttributeError, st, fs)))"


section \<open>Properties of the filesystem operations\<close>

definition no_links :: "filesystem \<Rightarrow> bool" where
  "no_links fs \<longleftrightarrow> list_all (\<lambda>e. case snd e of Link t \<Rightarrow> False | _ \<Rightarrow> True) fs"

lemma no_links_map_of: "no_links fs \<Longrightarrow> map_of fs p \<noteq> Some (Link t)"
proof
  assume nl: "no_links fs" and "map_of fs p = Some (Link t)"
  then have "(p, Link t) \<in> set fs" by (blast dest: map_of_SomeD)
  with nl show False by (auto simp: no_links_def list_all_iff)
qed

lemma walk_no_links: "no_links fs \<Longrightarrow> walk fuel fs cur rest = Some (cur @ rest)"
proof (induction rest arbitrary: cur)
  case Nil
  show ?case by simp
next
  case (Cons c rest)
  from Cons.prems have "\<And>t. map_of fs (cur @ [c]) \<noteq> Some (Link t)"
    by (rule no_links_map_of)
  then have "walk fuel fs cur (c # rest) = walk fuel fs (cur @ [c]) rest"
    by (auto split: option.splits node.splits)
  with Cons show ?case by simp
qed

lemma stat_no_links: "no_links fs \<Longrightarrow> stat_node fs p = node_at fs p"
  by (simp add: stat_node_def walk_no_links)

lemma lresolve_no_links: "no_links fs \<Longrightarrow> lresolve fs p = Some p"
  by (simp add: lresolve_def walk_no_links)

lemma lstat_no_links: "no_links fs \<Longrightarrow> lstat_node fs p = node_at fs p"
  by (simp add: lstat_node_def lresolve_no_links)

lemma path_exists_no_links:
  assumes "no_links fs"
  shows "path_exists fs p \<longleftrightarrow> p = [] \<or> p \<in> fst ` set fs"
proof -
  have "(map_of fs p \<noteq> None) = (p \<in> fst ` set fs)"
    by (simp add: map_of_eq_None_iff)
  then show ?thesis
    using assms by (simp add: path_exists_def stat_no_links node_at_def)
qed

lemma is_file_no_links_D:
  assumes "no_links fs" "is_file fs p"
  shows "p \<noteq> []" and "\<exists>r. (p, File r) \<in> set fs"
proof -
  from assms obtain r where r: "node_at fs p = Some (File r)"
    by (auto simp: is_file_def stat_no_links split: option.splits node.splits)
  then show "p \<noteq> []"
    by (auto simp: node_at_def)
  with r have "map_of fs p = Some (File r)"
    by (simp add: node_at_def)
  then show "\<exists>r. (p, File r) \<in> set fs"
    by (blast dest: map_of_SomeD)
qed

lemma is_file_no_links_I:
  assumes "no_links fs" "distinct (map fst fs)" "p \<noteq> []" "(p, File r) \<in> set fs"
  shows "is_file fs p"
proof -
  from assms(2,4) have "map_of fs p = Some (File r)" by simp
  with assms(1,3) show ?thesis
    by (simp add: is_file_def stat_no_links node_at_def)
qed

lemma os_mkdir_extends:
  "os_mkdir p fs = Inr fs' \<Longrightarrow> \<exists>d. fs' = fs @ [(d, Dir)] \<and> d \<notin> fst ` set fs"
  by (auto simp: os_mkdir_def node_at_def map_of_eq_None_iff
      split: option.splits node.splits if_splits)

lemma mkdir_extends:
  "mkdir p fs = Inr fs' \<Longrightarrow>
   \<exists>ds. fs' = fs @ map (\<lambda>d. (d, Dir)) ds \<and> distinct ds \<and> set ds \<inter> fst ` set fs = {}"
proof (induction p fs arbitrary: fs' rule: mkdir.induct)
  case (1 p fs)
  show ?case
  proof (cases "os_mkdir p fs")
    case (Inr fs1)
    with "1.prems" have "fs' = fs1"
      by (subst (asm) mkdir.simps) simp
    with os_mkdir_extends [OF Inr] obtain d where "fs' = fs @ map (\<lambda>d. (d, Dir)) [d]"
      and "d \<notin> fst ` set fs"
      by auto
    then show ?thesis
      by (intro exI [of _ "[d]"]) simp
  next
    case (Inl e)
    show ?thesis
    proof (cases "e = FileNotFoundError \<and> p \<noteq> []")
      case False
      with Inl "1.prems" have "fs' = fs @ map (\<lambda>d. (d, Dir)) []"
        by (subst (asm) mkdir.simps) (auto split: if_splits)
      then show ?thesis
        by (intro exI [of _ "[]"]) simp
    next
      case True
      with Inl "1.prems" obtain fs1 where par: "mkdir (path_parent p) fs = Inr fs1"
        and fin: "(case os_mkdir p fs1 of
                     Inr fs'' \<Rightarrow> Inr fs''
                   | Inl e' \<Rightarrow> if e' \<noteq> FileNotFoundError \<and> is_dir fs1 p then Inr fs1 else Inl e')
                  = Inr fs'"
        by (subst (asm) mkdir.simps) (auto split: sum.splits)
      from True have "e = FileNotFoundError" "p \<noteq> []" by simp_all
      from "1.IH" [OF Inl this par] obtain ds where
        ds: "fs1 = fs @ map (\<lambda>d. (d, Dir)) ds" "distinct ds" "set ds \<inter> fst ` set fs = {}"
        by blast
      show ?thesis
      proof (cases "os_mkdir p fs1")
        case (Inr fs2)
        with fin have "fs' = fs2" by simp
        with os_mkdir_extends [OF Inr] obtain d where
          d: "fs' = fs1 @ [(d, Dir)]" "d \<notin> fst ` set fs1"
          by auto
        from d(2) ds(1) have "d \<notin> set ds" "d \<notin> fst ` set fs"
          by (auto simp: image_Un image_image)
        with d(1) ds show ?thesis
          by (intro exI [of _ "ds @ [d]"]) auto
      next
        case (Inl e')
        with fin have "fs' = fs1" by (simp split: if_splits)
        with ds show ?thesis by blast
      qed
    qed
  qed
qed

lemma keys_with_dirs: "map fst (fs @ map (\<lambda>d. (d, Dir)) ds) = map fst fs @ ds"
  by (induction ds) simp_all

lemma mkdir_distinct:
  assumes "mkdir p fs = Inr fs'" "distinct (map fst fs)"
  shows "distinct (map fst fs')"
proof -
  from mkdir_extends [OF assms(1)] obtain ds where
    "fs' = fs @ map (\<lambda>d. (d, Dir)) ds" "distinct ds" "set ds \<inter> fst ` set fs = {}"
    by blast
  then have "map fst fs' = map fst fs @ ds" "distinct ds" "set ds \<inter> set (map fst fs) = {}"
    by (simp_all add: comp_def)
  with assms(2) show ?thesis
    by (simp add: Int_commute)
qed

lemma mkdir_keeps: "mkdir p fs = Inr fs' \<Longrightarrow> set fs \<subseteq> set fs'"
  by (auto dest: mkdir_extends)

lemma mkdir_no_links:
  assumes "mkdir p fs = Inr fs'" "no_links fs"
  shows "no_links fs'"
proof -
  from mkdir_extends [OF assms(1)] obtain ds where "fs' = fs @ map (\<lambda>d. (d, Dir)) ds"
    by blast
  with assms(2) show ?thesis
    by (auto simp: no_links_def list_all_iff)
qed

lemma os_mkdir_no_links:
  assumes "os_mkdir p fs = Inr fs'" "no_links fs"
  shows "no_links fs'" and "is_dir fs' p"
proof -
  from assms have fs': "fs' = fs @ [(p, Dir)]" and free: "map_of fs p = None" and "p \<noteq> []"
    by (auto simp: os_mkdir_def lresolve_no_links node_at_def
        split: option.splits node.splits if_splits)
  from fs' assms(2) show nl: "no_links fs'"
    by (auto simp: no_links_def list_all_iff)
  from free fs' have "map_of fs' p = Some Dir"
    by (simp add: map_add_def)
  with nl \<open>p \<noteq> []\<close> show "is_dir fs' p"
    by (simp add: is_dir_def stat_no_links node_at_def)
qed

lemma mkdir_is_dir:
  assumes "mkdir p fs = Inr fs'" "no_links fs"
  shows "is_dir fs' p"
proof (cases "os_mkdir p fs")
  case (Inr fs1)
  with assms(1) have "fs' = fs1"
    by (subst (asm) mkdir.simps) simp
  with os_mkdir_no_links(2) [OF Inr assms(2)] show ?thesis by simp
next
  case (Inl e)
  show ?thesis
  proof (cases "e = FileNotFoundError \<and> p \<noteq> []")
    case False
    with Inl assms(1) show ?thesis
      by (subst (asm) mkdir.simps) (auto split: if_splits)
  next
    case True
    with Inl assms(1) obtain fs1 where par: "mkdir (path_parent p) fs = Inr fs1"
      and fin: "(case os_mkdir p fs1 of
                   Inr fs'' \<Rightarrow> Inr fs''
                 | Inl e' \<Rightarrow> if e' \<noteq> FileNotFoundError \<and> is_dir fs1 p then Inr fs1 else Inl e')
                = Inr fs'"
      by (subst (asm) mkdir.simps) (auto split: sum.splits)
    have nl1: "no_links fs1"
      using par assms(2) by (rule mkdir_no_links)
    show ?thesis
    proof (cases "os_mkdir p fs1")
      case (Inr fs2)
      with fin have "fs' = fs2" by simp
      with os_mkdir_no_links(2) [OF Inr nl1] show ?thesis by simp
    next
      case (Inl e')
      with fin show ?thesis by (auto split: if_splits)
    qed
  qed
qed

lemma make_unique_path_parent:
  "path_parent (make_unique_path fs (d @ [n])) = d"
proof -
  have "path_parent (make_unique_loop fs dest c) = path_parent dest" for dest c
  proof (induction fs dest c rule: make_unique_loop.induct)
    case (1 fs dest counter)
    show ?case
    proof (cases "path_exists fs (candidate dest counter)")
      case True
      with 1 show ?thesis by (subst make_unique_loop.simps) simp
    next
      case False
      then show ?thesis
        by (subst make_unique_loop.simps) (simp add: candidate_def path_parent_def)
    qed
  qed
  then show ?thesis
    by (simp add: make_unique_path_def path_parent_def)
qed

text \<open>
  In a filesystem without links, moving a regular file to a path where nothing exists
  succeeds only by \<open>os.rename\<close>, and renames that one entry.
\<close>

lemma shutil_move_file_free:
  assumes nl: "no_links fs" and f: "map_of fs f = Some (File r)" and fne: "f \<noteq> []"
    and free: "\<not> path_exists fs d" and mv: "shutil_move lib f d fs = (None, fs')"
  shows "fs' = map (\<lambda>(p, m). (if p = f then d else p, m)) fs"
proof -
  from free nl have dne: "d \<noteq> []" and dfree: "d \<notin> fst ` set fs"
    by (simp_all add: path_exists_no_links)
  then have dn: "map_of fs d = None" "node_at fs d = None"
    by (simp_all add: node_at_def map_of_eq_None_iff)
  from f have fk: "f \<in> fst ` set fs" by (rule map_of_in_keys)
  with dfree have fd: "f \<noteq> d" by auto
  from dn nl have nd: "\<not> is_dir fs d"
    by (simp add: is_dir_def stat_no_links)
  with mv have mt: "move_to lib f d d fs = (None, fs')"
    by (simp add: shutil_move_def)
  from f fne nl have fl: "\<not> is_link fs f" "\<not> is_dir fs f"
    by (simp_all add: is_link_def is_dir_def lstat_no_links stat_no_links node_at_def)
  show ?thesis
  proof (cases "os_rename f d fs")
    case (Inr X)
    with mt have "fs' = X" by (simp add: move_to_def)
    moreover from Inr f fne dne fd dn nl have "X = rename_entries (File r) f d fs"
      by (auto simp: os_rename_def lresolve_no_links split: if_splits)
    moreover from dfree have "[e \<leftarrow> fs. fst e \<noteq> d] = fs"
      by (auto simp: filter_id_conv)
    ultimately show ?thesis
      by (auto simp: rename_entries_def)
  next
    case (Inl e)
    with f fne dne fd dn nl have why: "node_at fs (butlast d) \<noteq> Some Dir \<or> \<not> removable r"
      by (auto simp: os_rename_def lresolve_no_links split: if_splits)
    from Inl mt fl have c2: "(case copy2 f d fs of
          Inl e' \<Rightarrow> (Some e', fs)
        | Inr fs1 \<Rightarrow> (case os_unlink f fs1 of
                        Inl e' \<Rightarrow> (Some e', fs1)
                      | Inr fs2 \<Rightarrow> (None, fs2))) = (None, fs')"
      by (simp add: move_to_def)
    then obtain fs1 where cp: "copy2 f d fs = Inr fs1" and ul: "\<exists>fs2. os_unlink f fs1 = Inr fs2"
      by (auto split: sum.splits)
    from cp nd f fne fd dn nl have par: "node_at fs (butlast d) = Some Dir"
      and fs1: "fs1 = fs @ [(d, File (r\<lparr>removable := True\<rparr>))]"
      by (auto simp: copy2_def copyfile_def samefile_def walk_no_links stat_no_links node_at_def
          split: if_splits)
    from fs1 nl have nl1: "no_links fs1"
      by (simp add: no_links_def)
    from fs1 f have "map_of fs1 f = Some (File r)"
      by (simp add: map_add_def)
    with ul nl1 fne have "removable r"
      by (auto simp: os_unlink_def lresolve_no_links node_at_def split: if_splits)
    with why par show ?thesis by simp
  qed
qed

lemma rename_distinct:
  assumes "distinct (map fst fs)" "d \<notin> fst ` set fs"
  shows "distinct (map fst (map (\<lambda>(p, m). (if p = f then d else p, m)) fs))"
proof -
  have "map fst (map (\<lambda>(p, m). (if p = f then d else p, m)) fs) =
      map (\<lambda>p. if p = f then d else p) (map fst fs)"
    by (induction fs) auto
  moreover have "inj_on (\<lambda>p. if p = f then d else p) (set (map fst fs))"
    using assms(2) by (auto simp: inj_on_def)
  ultimately show ?thesis
    using assms(1) by (simp add: distinct_map del: map_map)
qed

lemma rename_no_links:
  "no_links fs \<Longrightarrow> no_links (map (\<lambda>(p, m). (if p = f then d else p, m)) fs)"
  by (auto simp: no_links_def list_all_iff)

text \<open>A loop body that succeeds has built the record of its file.\<close>

lemma place_src: "place lib target folder dry_run now f fs = (Inr m, fs') \<Longrightarrow> src m = f"
  by (auto simp: place_def Let_def split: sum.splits if_splits prod.splits option.splits)

lemma type_step_src: "type_step lib target em dry_run now f fs = (Inr m, fs') \<Longrightarrow> src m = f"
  by (auto simp: type_step_def Let_def dest: place_src)

lemma date_step_src: "date_step lib target dry_run now f fs = (Inr m, fs') \<Longrightarrow> src m = f"
  by (auto simp: date_step_def dest: place_src split: option.splits node.splits if_splits)

text \<open>
  What a successful loop body does in a filesystem without links, for a source that is a
  regular file.
\<close>

lemma place_ok:
  assumes ok: "place lib target folder dry_run now f fs = (Inr m, fs')"
    and dist: "distinct (map fst fs)" and nl: "no_links fs" and isf: "is_file fs f"
  shows "dst m \<notin> fst ` set fs" and "distinct (map fst fs')" and "no_links fs'"
    and "\<And>g. g \<noteq> f \<Longrightarrow> is_file fs g \<Longrightarrow> is_file fs' g"
proof -
  let ?dir = "target @ [folder]"
  from ok obtain fs1 where mk: "mkdir ?dir fs = Inr fs1"
    by (auto simp: place_def Let_def split: sum.splits)
  let ?dest = "make_unique_path fs1 (?dir @ [path_name f])"
  have free1: "\<not> path_exists fs1 ?dest"
    by (rule make_unique_path_not_exists)
  have d1: "distinct (map fst fs1)"
    using mk dist by (rule mkdir_distinct)
  have nl1: "no_links fs1"
    using mk nl by (rule mkdir_no_links)
  have sub: "set fs \<subseteq> set fs1"
    using mk by (rule mkdir_keeps)
  from ok mk have m: "dst m = ?dest"
    by (auto simp: place_def Let_def split: sum.splits if_splits prod.splits option.splits)
  from free1 nl1 have dfree1: "?dest \<notin> fst ` set fs1"
    by (simp add: path_exists_no_links)
  with sub m show "dst m \<notin> fst ` set fs"
    by auto
  have keep1: "is_file fs1 g" if "is_file fs g" for g
  proof -
    from is_file_no_links_D [OF nl that] obtain r where "g \<noteq> []" "(g, File r) \<in> set fs"
      by blast
    with sub show ?thesis
      by (auto intro: is_file_no_links_I [OF nl1 d1])
  qed
  have moved: "fs' = map (\<lambda>(p, m). (if p = f then ?dest else p, m)) fs1" if "\<not> dry_run"
  proof -
    from that ok mk have mv: "shutil_move lib f ?dest fs1 = (None, fs')"
      by (auto simp: place_def Let_def split: sum.splits prod.splits option.splits)
    from is_file_no_links_D [OF nl1 keep1 [OF isf]] d1 obtain r where
      "f \<noteq> []" "map_of fs1 f = Some (File r)"
      by auto
    with nl1 free1 mv show ?thesis
      by (intro shutil_move_file_free)
  qed
  have same: "fs' = fs1" if dry_run
    using that ok mk by (auto simp: place_def Let_def)
  show "distinct (map fst fs')"
  proof (cases dry_run)
    case True
    with same d1 show ?thesis by simp
  next
    case False
    from d1 dfree1 show ?thesis
      unfolding moved [OF False] by (rule rename_distinct)
  qed
  show "no_links fs'"
  proof (cases dry_run)
    case True
    with same nl1 show ?thesis by simp
  next
    case False
    from nl1 show ?thesis
      unfolding moved [OF False] by (rule rename_no_links)
  qed
  fix g
  assume g: "g \<noteq> f" "is_file fs g"
  show "is_file fs' g"
  proof (cases dry_run)
    case True
    with same keep1 [OF g(2)] show ?thesis by simp
  next
    case False
    from d1 dfree1 have d': "distinct (map fst fs')"
      unfolding moved [OF False] by (rule rename_distinct)
    from nl1 have nl': "no_links fs'"
      unfolding moved [OF False] by (rule rename_no_links)
    from is_file_no_links_D [OF nl1 keep1 [OF g(2)]] obtain r where
      r: "g \<noteq> []" "(g, File r) \<in> set fs1"
      by blast
    with g(1) have "(g, File r) \<in> set fs'"
      unfolding moved [OF False] by force
    with r(1) show ?thesis
      by (intro is_file_no_links_I [OF nl' d'])
  qed
qed

lemma type_step_ok:
  assumes "type_step lib target em dry_run now f fs = (Inr m, fs')"
    and "distinct (map fst fs)" and "no_links fs" and "is_file fs f"
  shows "dst m \<notin> fst ` set fs \<and> distinct (map fst fs') \<and> no_links fs' \<and>
    (\<forall>g. g \<noteq> f \<longrightarrow> is_file fs g \<longrightarrow> is_file fs' g)"
  using assms place_ok [of lib target _ dry_run now f fs m fs']
  by (simp add: type_step_def Let_def)

lemma date_step_ok:
  assumes "date_step lib target dry_run now f fs = (Inr m, fs')"
    and "distinct (map fst fs)" and "no_links fs" and "is_file fs f"
  shows "dst m \<notin> fst ` set fs \<and> distinct (map fst fs') \<and> no_links fs' \<and>
    (\<forall>g. g \<noteq> f \<longrightarrow> is_file fs g \<longrightarrow> is_file fs' g)"
proof -
  from assms(1) obtain folder where "place lib target folder dry_run now f fs = (Inr m, fs')"
    by (auto simp: date_step_def split: option.splits node.splits if_splits)
  from place_ok [OF this assms(2,3,4)] show ?thesis by simp
qed

lemma is_file_key:
  assumes "no_links fs" "is_file fs p"
  shows "p \<in> fst ` set fs"
proof -
  from is_file_no_links_D(2) [OF assms] obtain r where "(p, File r) \<in> set fs" ..
  then have "fst (p, File r) \<in> fst ` set fs" by (rule imageI)
  then show ?thesis by simp
qed

text \<open>The records of a completed loop have the files as sources, in order.\<close>

lemma organize_by_type_loop_sources:
  "organize_by_type_loop lib target em dry_run files ms fs = (Inr res, fs') \<Longrightarrow>
   \<exists>new. res = ms @ new \<and> map src new = files"
proof (induction files arbitrary: ms fs)
  case Nil
  then show ?case by simp
next
  case (Cons f files)
  from Cons.prems obtain m fs1 where
    step: "type_step lib target em dry_run (utcnow lib (length ms)) f fs = (Inr m, fs1)"
    and rest: "organize_by_type_loop lib target em dry_run files (ms @ [m]) fs1 = (Inr res, fs')"
    by (auto split: prod.splits sum.splits)
  from Cons.IH [OF rest] obtain new where "res = (ms @ [m]) @ new" "map src new = files"
    by blast
  with type_step_src [OF step] show ?case
    by (intro exI [of _ "m # new"]) simp
qed

lemma organize_by_date_loop_sources:
  "organize_by_date_loop lib target dry_run files ms fs = (Inr res, fs') \<Longrightarrow>
   \<exists>new. res = ms @ new \<and> map src new = files"
proof (induction files arbitrary: ms fs)
  case Nil
  then show ?case by simp
next
  case (Cons f files)
  from Cons.prems obtain m fs1 where
    step: "date_step lib target dry_run (utcnow lib (length ms)) f fs = (Inr m, fs1)"
    and rest: "organize_by_date_loop lib target dry_run files (ms @ [m]) fs1 = (Inr res, fs')"
    by (auto split: prod.splits sum.splits)
  from Cons.IH [OF rest] obtain new where "res = (ms @ [m]) @ new" "map src new = files"
    by blast
  with date_step_src [OF step] show ?case
    by (intro exI [of _ "m # new"]) simp
qed

text \<open>No record's destination is the source of that record or of a later one.\<close>

fun never_again :: "move_record list \<Rightarrow> bool" where
  "never_again [] \<longleftrightarrow> True"
| "never_again (m # ms) \<longleftrightarrow> dst m \<notin> set (map src (m # ms)) \<and> never_again ms"

lemma never_again_nth:
  "never_again ms \<Longrightarrow> i \<le> j \<Longrightarrow> j < length ms \<Longrightarrow> dst (ms ! i) \<noteq> src (ms ! j)"
proof (induction ms arbitrary: i j)
  case Nil
  then show ?case by simp
next
  case (Cons m ms)
  show ?case
  proof (cases i)
    case 0
    have "src ((m # ms) ! j) \<in> set (map src (m # ms))"
      using Cons.prems(3) by (metis length_map nth_map nth_mem)
    with Cons.prems(1) 0 show ?thesis by auto
  next
    case (Suc i')
    with Cons.prems obtain j' where "j = Suc j'" by (cases j) auto
    with Suc Cons show ?thesis by simp
  qed
qed

lemma organize_by_type_loop_ok:
  assumes "organize_by_type_loop lib target em dry_run files ms fs = (Inr res, fs')"
    and "distinct (map fst fs)" and "no_links fs" and "distinct files"
    and "\<forall>g \<in> set files. is_file fs g"
  shows "\<exists>new. res = ms @ new \<and> map src new = files \<and> never_again new"
  using assms
proof (induction files arbitrary: ms fs)
  case Nil
  then show ?case by simp
next
  case (Cons f files)
  from Cons.prems(1) obtain m fs1 where
    step: "type_step lib target em dry_run (utcnow lib (length ms)) f fs = (Inr m, fs1)"
    and rest: "organize_by_type_loop lib target em dry_run files (ms @ [m]) fs1 = (Inr res, fs')"
    by (auto split: prod.splits sum.splits)
  from Cons.prems have ff: "is_file fs f" by simp
  note s = type_step_ok [OF step Cons.prems(2,3) ff]
  have files1: "\<forall>g \<in> set files. is_file fs1 g"
  proof
    fix g
    assume "g \<in> set files"
    with Cons.prems(4,5) have "g \<noteq> f" and "is_file fs g" by auto
    with s show "is_file fs1 g" by blast
  qed
  from Cons.IH [OF rest _ _ _ files1] s Cons.prems(4) obtain new where
    new: "res = (ms @ [m]) @ new" "map src new = files" "never_again new"
    by auto
  from s have "dst m \<noteq> f"
    using is_file_key [OF Cons.prems(3) ff] by auto
  moreover have "dst m \<notin> set files"
    using s Cons.prems(3,5) is_file_key by fastforce
  ultimately have "never_again (m # new)"
    using new type_step_src [OF step] by simp
  with new type_step_src [OF step] show ?case
    by (intro exI [of _ "m # new"]) simp
qed

lemma organize_by_date_loop_ok:
  assumes "organize_by_date_loop lib target dry_run files ms fs = (Inr res, fs')"
    and "distinct (map fst fs)" and "no_links fs" and "distinct files"
    and "\<forall>g \<in> set files. is_file fs g"
  shows "\<exists>new. res = ms @ new \<and> map src new = files \<and> never_again new"
  using assms
proof (induction files arbitrary: ms fs)
  case Nil
  then show ?case by simp
next
  case (Cons f files)
  from Cons.prems(1) obtain m fs1 where
    step: "date_step lib target dry_run (utcnow lib (length ms)) f fs = (Inr m, fs1)"
    and rest: "organize_by_date_loop lib target dry_run files (ms @ [m]) fs1 = (Inr res, fs')"
    by (auto split: prod.splits sum.splits)
  from Cons.prems have ff: "is_file fs f" by simp
  note s = date_step_ok [OF step Cons.prems(2,3) ff]
  have files1: "\<forall>g \<in> set files. is_file fs1 g"
  proof
    fix g
    assume "g \<in> set files"
    with Cons.prems(4,5) have "g \<noteq> f" and "is_file fs g" by auto
    with s show "is_file fs1 g" by blast
  qed
  from Cons.IH [OF rest _ _ _ files1] s Cons.prems(4) obtain new where
    new: "res = (ms @ [m]) @ new" "map src new = files" "never_again new"
    by auto
  from s have "dst m \<noteq> f"
    using is_file_key [OF Cons.prems(3) ff] by auto
  moreover have "dst m \<notin> set files"
    using s Cons.prems(3,5) is_file_key by fastforce
  ultimately have "never_again (m # new)"
    using new date_step_src [OF step] by simp
  with new date_step_src [OF step] show ?case
    by (intro exI [of _ "m # new"]) simp
qed

text \<open>\<open>list_files\<close> yields files, each once.\<close>

lemma list_files_ok:
  assumes "list_files target recursive fs = Inr files" "distinct (map fst fs)"
  shows "distinct files" and "\<forall>g \<in> set files. is_file fs g"
proof -
  obtain r where r: "walk 40 fs [] target = Some r \<or> files = []"
    using assms(1) by (cases "walk 40 fs [] target") (auto simp: list_files_def split: if_splits)
  have inj_rec: "inj_on (\<lambda>q. target @ drop (length r) q) {q. under r q}"
  proof (rule inj_onI)
    fix a b
    assume "a \<in> {q. under r q}" "b \<in> {q. under r q}"
      and "target @ drop (length r) a = target @ drop (length r) b"
    then have "take (length r) a = take (length r) b" "drop (length r) a = drop (length r) b"
      by (simp_all add: under_def)
    then show "a = b" by (metis append_take_drop_id)
  qed
  have inj_flat: "inj_on (\<lambda>q. target @ [last q]) {q. q \<noteq> [] \<and> butlast q = r}"
  proof (rule inj_onI)
    fix a b
    assume "a \<in> {q. q \<noteq> [] \<and> butlast q = r}" "b \<in> {q. q \<noteq> [] \<and> butlast q = r}"
      and "target @ [last a] = target @ [last b]"
    then have "butlast a @ [last a] = butlast b @ [last b]" "a \<noteq> []" "b \<noteq> []" by simp_all
    then show "a = b" by simp
  qed
  have d_rec: "distinct (map (\<lambda>q. target @ drop (length r) q)
      [q \<leftarrow> map fst fs. under r q \<and> real_dirs_between fs r q])"
    using assms(2) by (auto simp: distinct_map intro: inj_on_subset [OF inj_rec])
  have d_flat: "distinct (map (\<lambda>q. target @ [last q])
      [q \<leftarrow> map fst fs. q \<noteq> [] \<and> butlast q = r])"
    using assms(2) by (auto simp: distinct_map intro: inj_on_subset [OF inj_flat])
  from r assms(1) d_rec d_flat show "distinct files"
    by (auto simp: list_files_def split: if_splits option.splits node.splits)
  from assms(1) show "\<forall>g \<in> set files. is_file fs g"
    by (auto simp: list_files_def split: if_splits option.splits node.splits)
qed

section \<open>Example data\<close>

definition plain :: "string \<Rightarrow> regular_file" where
  "plain c =
     \<lparr>content = c, mtime_year = 2024, mtime_month = 3, readable = True, removable = True\<rparr>"

definition example_clock :: "nat \<Rightarrow> string" where
  "example_clock n = ''2024-03-01T00:00:0'' @ str_nat n"

definition example_lib :: library where
  "example_lib =
     \<lparr>utcnow = example_clock,
      dir_mtime = (\<lambda>d. (2024, 3)),
      move_tree = (\<lambda>s d fs. (Some ShutilError, fs))\<rparr>"

definition nested_fs :: filesystem where
  "nested_fs =
     [([''t''], Dir),
      ([''t'', ''a.jpg''], File (plain ''x'')),
      ([''t'', ''sub''], Dir),
      ([''t'', ''sub'', ''a.jpg''], File (plain ''w''))]"

definition link_fs :: filesystem where
  "link_fs =
     [([''t''], Dir),
      ([''t'', ''a.jpg''], File (plain ''x'')),
      ([''t'', ''z''], Dir),
      ([''t'', ''z'', ''a.jpg''], File (plain ''w'')),
      ([''t'', ''Images''], Dir),
      ([''t'', ''Images'', ''a_1.jpg''], Link [''t'', ''a.jpg''])]"

definition locked_fs :: filesystem where
  "locked_fs =
     [([''t''], Dir),
      ([''t'', ''a.txt''], File (plain ''x'')),
      ([''t'', ''b.txt''], File ((plain ''y'')\<lparr>removable := False\<rparr>)),
      ([''t'', ''c.txt''], File (plain ''z''))]"

definition others_fs :: filesystem where
  "others_fs =
     [([''t''], Dir),
      ([''t'', ''a.txt''], File (plain ''x'')),
      ([''t'', ''Others''], File (plain ''y'')),
      ([''t'', ''c.txt''], File (plain ''z''))]"

section \<open>Properties of the organize engine\<close>

text \<open>
  C10, as stated, fails in a tree with a symbolic link. \<open>t/Images/a_1.jpg\<close> is a link
  to \<open>t/a.jpg\<close>, so \<open>rglob\<close> and \<open>is_file\<close> enumerate it. Once \<open>t/a.jpg\<close> has been moved
  the link dangles, \<open>make_unique_path\<close> finds nothing at \<open>t/Images/a_1.jpg\<close>, and the
  file from \<open>t/z\<close> is renamed over the link. That path is still in the snapshot: the
  third record moves the same file a second time.
\<close>

theorem organize_snapshot_counterexample:
  "list_files [''t''] True link_fs =
     Inr [[''t'', ''a.jpg''], [''t'', ''z'', ''a.jpg''], [''t'', ''Images'', ''a_1.jpg'']] \<and>
   organize_by_type example_lib [''t''] DEFAULT_EXT_MAP False True link_fs =
     (Inr [\<lparr>src = [''t'', ''a.jpg''], dst = [''t'', ''Images'', ''a.jpg''],
             time = ''2024-03-01T00:00:00'', dry = False\<rparr>,
           \<lparr>src = [''t'', ''z'', ''a.jpg''], dst = [''t'', ''Images'', ''a_1.jpg''],
             time = ''2024-03-01T00:00:01'', dry = False\<rparr>,
           \<lparr>src = [''t'', ''Images'', ''a_1.jpg''], dst = [''t'', ''Images'', ''a_1_1.jpg''],
             time = ''2024-03-01T00:00:02'', dry = False\<rparr>],
      [([''t''], Dir),
       ([''t'', ''Images'', ''a.jpg''], File (plain ''x'')),
       ([''t'', ''z''], Dir),
       ([''t'', ''Images'', ''a_1_1.jpg''], File (plain ''w'')),
       ([''t'', ''Images''], Dir)])"
  by code_simp

text \<open>
  C10, amended. The records of a completed organize call have as sources exactly the
  paths that \<open>list_files\<close> enumerates in the filesystem as it is before the call, each
  once and in that order. When the filesystem holds no symbolic link, no record's
  destination is the source of that record or of a later one, so a file that the call
  has moved is not moved again. This holds for both strategies, recursive or not, dry
  run or not.
\<close>

theorem organize_snapshot:
  assumes "distinct (map fst fs)"
  shows
    "(organize_by_type lib target em dry_run recursive fs = (Inr moves, fs') \<longrightarrow>
        list_files target recursive fs = Inr (map src moves) \<and> distinct (map src moves) \<and>
        (no_links fs \<longrightarrow>
           (\<forall>i j. i \<le> j \<and> j < length moves \<longrightarrow> dst (moves ! i) \<noteq> src (moves ! j)))) \<and>
     (organize_by_date lib target dry_run recursive fs = (Inr moves, fs') \<longrightarrow>
        list_files target recursive fs = Inr (map src moves) \<and> distinct (map src moves) \<and>
        (no_links fs \<longrightarrow>
           (\<forall>i j. i \<le> j \<and> j < length moves \<longrightarrow> dst (moves ! i) \<noteq> src (moves ! j))))"
proof (intro conjI impI)
  assume run: "organize_by_type lib target em dry_run recursive fs = (Inr moves, fs')"
  then obtain files where lf: "list_files target recursive fs = Inr files"
    and loop: "organize_by_type_loop lib target em dry_run files [] fs = (Inr moves, fs')"
    by (auto simp: organize_by_type_def split: sum.splits)
  note files = list_files_ok [OF lf assms]
  from organize_by_type_loop_sources [OF loop] have ms: "map src moves = files" by simp
  from ms lf show "list_files target recursive fs = Inr (map src moves)" by simp
  from ms files show "distinct (map src moves)" by simp
  assume "no_links fs"
  from organize_by_type_loop_ok [OF loop assms this files] have "never_again moves" by auto
  then show "\<forall>i j. i \<le> j \<and> j < length moves \<longrightarrow> dst (moves ! i) \<noteq> src (moves ! j)"
    using never_again_nth by blast
next
  assume run: "organize_by_date lib target dry_run recursive fs = (Inr moves, fs')"
  then obtain files where lf: "list_files target recursive fs = Inr files"
    and loop: "organize_by_date_loop lib target dry_run files [] fs = (Inr moves, fs')"
    by (auto simp: organize_by_date_def split: sum.splits)
  note files = list_files_ok [OF lf assms]
  from organize_by_date_loop_sources [OF loop] have ms: "map src moves = files" by simp
  from ms lf show "list_files target recursive fs = Inr (map src moves)" by simp
  from ms files show "distinct (map src moves)" by simp
  assume "no_links fs"
  from organize_by_date_loop_ok [OF loop assms this files] have "never_again moves" by auto
  then show "\<forall>i j. i \<le> j \<and> j < length moves \<longrightarrow> dst (moves ! i) \<noteq> src (moves ! j)"
    using never_again_nth by blast
qed

theorem organize_snapshot_witness:
  "distinct (map fst nested_fs) \<and> no_links nested_fs \<and>
   fst (organize_by_type example_lib [''t''] DEFAULT_EXT_MAP False True nested_fs) =
     Inr [\<lparr>src = [''t'', ''a.jpg''], dst = [''t'', ''Images'', ''a.jpg''],
            time = ''2024-03-01T00:00:00'', dry = False\<rparr>,
          \<lparr>src = [''t'', ''sub'', ''a.jpg''], dst = [''t'', ''Images'', ''a_1.jpg''],
            time = ''2024-03-01T00:00:01'', dry = False\<rparr>] \<and>
   list_files [''t''] True nested_fs = Inr [[''t'', ''a.jpg''], [''t'', ''sub'', ''a.jpg'']] \<and>
   [''t'', ''Images'', ''a.jpg''] \<noteq> [''t'', ''sub'', ''a.jpg'']"
proof -
  let ?ms = "[\<lparr>src = [''t'', ''a.jpg''], dst = [''t'', ''Images'', ''a.jpg''],
            time = ''2024-03-01T00:00:00'', dry = False\<rparr>,
          \<lparr>src = [''t'', ''sub'', ''a.jpg''], dst = [''t'', ''Images'', ''a_1.jpg''],
            time = ''2024-03-01T00:00:01'', dry = False\<rparr>]"
  let ?run = "organize_by_type example_lib [''t''] DEFAULT_EXT_MAP False True nested_fs"
  have d: "distinct (map fst nested_fs)"
    by code_simp
  have nl: "no_links nested_fs"
    by code_simp
  have ev: "fst ?run = Inr ?ms"
    by code_simp
  then have run: "?run = (Inr ?ms, snd ?run)"
    by (simp add: prod_eq_iff)
  note spec = organize_snapshot [OF d, THEN conjunct1, THEN mp, OF run]
  from spec have lf: "list_files [''t''] True nested_fs = Inr (map src ?ms)"
    by (rule conjunct1)
  from spec nl have "\<forall>i j. i \<le> j \<and> j < length ?ms \<longrightarrow> dst (?ms ! i) \<noteq> src (?ms ! j)"
    by blast
  then have "(0::nat) \<le> 1 \<and> 1 < length ?ms \<longrightarrow> dst (?ms ! 0) \<noteq> src (?ms ! 1)"
    by blast
  then have "[''t'', ''Images'', ''a.jpg''] \<noteq> [''t'', ''sub'', ''a.jpg'']"
    by simp
  with d nl ev lf show ?thesis by simp
qed

lemma organize_by_type_loop_append:
  "organize_by_type_loop lib target em dry_run (pre @ rest) ms fs =
     (case organize_by_type_loop lib target em dry_run pre ms fs of
        (Inl e, fs1) \<Rightarrow> (Inl e, fs1)
      | (Inr ms1, fs1) \<Rightarrow> organize_by_type_loop lib target em dry_run rest ms1 fs1)"
  by (induction pre arbitrary: ms fs) (auto split: prod.splits sum.splits)

lemma organize_by_date_loop_append:
  "organize_by_date_loop lib target dry_run (pre @ rest) ms fs =
     (case organize_by_date_loop lib target dry_run pre ms fs of
        (Inl e, fs1) \<Rightarrow> (Inl e, fs1)
      | (Inr ms1, fs1) \<Rightarrow> organize_by_date_loop lib target dry_run rest ms1 fs1)"
  by (induction pre arbitrary: ms fs) (auto split: prod.splits sum.splits)

text \<open>
  C2, as stated, fails: the organize functions have no handler around the loop body.
  With \<open>b.txt\<close> readable but not removable, \<open>shutil.move\<close> copies it and then raises in
  \<open>os.unlink\<close>. The call raises: it returns no record list, the record of \<open>a.txt\<close>, which
  has been moved, is lost with it, and \<open>c.txt\<close> is never processed. The same happens
  when the destination directory cannot be created because a regular file has its name.
\<close>

theorem organize_failure_counterexample:
  "organize_by_type example_lib [''t''] DEFAULT_EXT_MAP False False locked_fs =
     (Inl PermissionError,
      [([''t''], Dir),
       ([''t'', ''Documents'', ''a.txt''], File (plain ''x'')),
       ([''t'', ''b.txt''], File ((plain ''y'')\<lparr>removable := False\<rparr>)),
       ([''t'', ''c.txt''], File (plain ''z'')),
       ([''t'', ''Documents''], Dir),
       ([''t'', ''Documents'', ''b.txt''], File (plain ''y''))]) \<and>
   organize_by_date example_lib [''t''] False False locked_fs =
     (Inl PermissionError,
      [([''t''], Dir),
       ([''t'', ''2024-03'', ''a.txt''], File (plain ''x'')),
       ([''t'', ''b.txt''], File ((plain ''y'')\<lparr>removable := False\<rparr>)),
       ([''t'', ''c.txt''], File (plain ''z'')),
       ([''t'', ''2024-03''], Dir),
       ([''t'', ''2024-03'', ''b.txt''], File (plain ''y''))]) \<and>
   organize_by_type example_lib [''t''] DEFAULT_EXT_MAP False False others_fs =
     (Inl FileExistsError,
      [([''t''], Dir),
       ([''t'', ''Documents'', ''a.txt''], File (plain ''x'')),
       ([''t'', ''Others''], File (plain ''y'')),
       ([''t'', ''c.txt''], File (plain ''z'')),
       ([''t'', ''Documents''], Dir)])"
  by code_simp

text \<open>
  C2, amended. When the loop body raises for an enumerated file, after the files before it
  have been processed, the call ends there with that exception in place of the record
  list, whatever files follow: none of them is processed, and the filesystem is as the
  failing step has left it. This holds for both strategies.
\<close>

theorem organize_aborts_at_failure:
  "(organize_by_type_loop lib target em dry_run pre ms fs = (Inr ms1, fs1) \<and>
    type_step lib target em dry_run (utcnow lib (length ms1)) f fs1 = (Inl e, fs2) \<longrightarrow>
      organize_by_type_loop lib target em dry_run (pre @ f # post) ms fs = (Inl e, fs2)) \<and>
   (organize_by_date_loop lib target dry_run pre ms fs = (Inr ms1, fs1) \<and>
    date_step lib target dry_run (utcnow lib (length ms1)) f fs1 = (Inl e, fs2) \<longrightarrow>
      organize_by_date_loop lib target dry_run (pre @ f # post) ms fs = (Inl e, fs2))"
proof (intro conjI impI)
  assume "organize_by_type_loop lib target em dry_run pre ms fs = (Inr ms1, fs1) \<and>
    type_step lib target em dry_run (utcnow lib (length ms1)) f fs1 = (Inl e, fs2)"
  then show "organize_by_type_loop lib target em dry_run (pre @ f # post) ms fs = (Inl e, fs2)"
    by (simp add: organize_by_type_loop_append)
next
  assume "organize_by_date_loop lib target dry_run pre ms fs = (Inr ms1, fs1) \<and>
    date_step lib target dry_run (utcnow lib (length ms1)) f fs1 = (Inl e, fs2)"
  then show "organize_by_date_loop lib target dry_run (pre @ f # post) ms fs = (Inl e, fs2)"
    by (simp add: organize_by_date_loop_append)
qed

theorem organize_aborts_at_failure_witness:
  "organize_by_type_loop example_lib [''t''] DEFAULT_EXT_MAP False
     ([[''t'', ''a.txt'']] @ [''t'', ''b.txt''] # [[''t'', ''c.txt'']]) [] locked_fs =
     (Inl PermissionError,
      snd (type_step example_lib [''t''] DEFAULT_EXT_MAP False (example_clock 1) [''t'', ''b.txt'']
        (snd (organize_by_type_loop example_lib [''t''] DEFAULT_EXT_MAP False
          [[''t'', ''a.txt'']] [] locked_fs)))) \<and>
   organize_by_date_loop example_lib [''t''] False
     ([[''t'', ''a.txt'']] @ [''t'', ''b.txt''] # [[''t'', ''c.txt'']]) [] locked_fs =
     (Inl PermissionError,
      snd (date_step example_lib [''t''] False (example_clock 1) [''t'', ''b.txt'']
        (snd (organize_by_date_loop example_lib [''t''] False
          [[''t'', ''a.txt'']] [] locked_fs))))"
proof -
  let ?m1 = "\<lparr>src = [''t'', ''a.txt''], dst = [''t'', ''Documents'', ''a.txt''],
    time = ''2024-03-01T00:00:00'', dry = False\<rparr>"
  let ?m2 = "\<lparr>src = [''t'', ''a.txt''], dst = [''t'', ''2024-03'', ''a.txt''],
    time = ''2024-03-01T00:00:00'', dry = False\<rparr>"
  let ?pre1 = "organize_by_type_loop example_lib [''t''] DEFAULT_EXT_MAP False
    [[''t'', ''a.txt'']] [] locked_fs"
  let ?pre2 = "organize_by_date_loop example_lib [''t''] False
    [[''t'', ''a.txt'']] [] locked_fs"
  let ?s1 = "type_step example_lib [''t''] DEFAULT_EXT_MAP False (example_clock 1)
    [''t'', ''b.txt''] (snd ?pre1)"
  let ?s2 = "date_step example_lib [''t''] False (example_clock 1) [''t'', ''b.txt''] (snd ?pre2)"
  have u: "utcnow example_lib = example_clock"
    by (simp add: example_lib_def)
  have "fst ?pre1 = Inr [?m1]" by code_simp
  then have p1: "?pre1 = (Inr [?m1], snd ?pre1)" by (simp add: prod_eq_iff)
  have "fst ?s1 = Inl PermissionError" by code_simp
  then have s1: "type_step example_lib [''t''] DEFAULT_EXT_MAP False
      (utcnow example_lib (length [?m1])) [''t'', ''b.txt''] (snd ?pre1) =
      (Inl PermissionError, snd ?s1)"
    by (simp add: prod_eq_iff u)
  have "fst ?pre2 = Inr [?m2]" by code_simp
  then have p2: "?pre2 = (Inr [?m2], snd ?pre2)" by (simp add: prod_eq_iff)
  have "fst ?s2 = Inl PermissionError" by code_simp
  then have s2: "date_step example_lib [''t''] False
      (utcnow example_lib (length [?m2])) [''t'', ''b.txt''] (snd ?pre2) =
      (Inl PermissionError, snd ?s2)"
    by (simp add: prod_eq_iff u)
  from organize_aborts_at_failure
    [where pre = "[[''t'', ''a.txt'']]" and f = "[''t'', ''b.txt'']" and post = "[[''t'', ''c.txt'']]",
      THEN conjunct1, THEN mp, OF conjI [OF p1 s1]]
  have r1: "organize_by_type_loop example_lib [''t''] DEFAULT_EXT_MAP False
     ([[''t'', ''a.txt'']] @ [''t'', ''b.txt''] # [[''t'', ''c.txt'']]) [] locked_fs =
     (Inl PermissionError, snd ?s1)" .
  from organize_aborts_at_failure
    [where pre = "[[''t'', ''a.txt'']]" and f = "[''t'', ''b.txt'']" and post = "[[''t'', ''c.txt'']]",
      THEN conjunct2, THEN mp, OF conjI [OF p2 s2]]
  have r2: "organize_by_date_loop example_lib [''t''] False
     ([[''t'', ''a.txt'']] @ [''t'', ''b.txt''] # [[''t'', ''c.txt'']]) [] locked_fs =
     (Inl PermissionError, snd ?s2)" .
  from r1 r2 show ?thesis by (rule conjI)
qed

text \<open>
  C1. A dry run moves no file, but it creates the destination directories: \<open>mkdir\<close> is
  called before the \<open>dry_run\<close> test. In a directory that holds \<open>a.jpg\<close> only, a dry run
  by type leaves the new directory \<open>Images\<close> behind; a dry run by date leaves \<open>2024-03\<close>.
\<close>

theorem dry_run_creates_directory:
  "\<not> path_exists [([''t''], Dir), ([''t'', ''a.jpg''], File (plain ''x''))] [''t'', ''Images''] \<and>
   organize_by_type example_lib [''t''] DEFAULT_EXT_MAP True False
     [([''t''], Dir), ([''t'', ''a.jpg''], File (plain ''x''))] =
     (Inr [\<lparr>src = [''t'', ''a.jpg''], dst = [''t'', ''Images'', ''a.jpg''],
             time = ''2024-03-01T00:00:00'', dry = True\<rparr>],
      [([''t''], Dir), ([''t'', ''a.jpg''], File (plain ''x'')), ([''t'', ''Images''], Dir)]) \<and>
   organize_by_date example_lib [''t''] True False
     [([''t''], Dir), ([''t'', ''a.jpg''], File (plain ''x''))] =
     (Inr [\<lparr>src = [''t'', ''a.jpg''], dst = [''t'', ''2024-03'', ''a.jpg''],
             time = ''2024-03-01T00:00:00'', dry = True\<rparr>],
      [([''t''], Dir), ([''t'', ''a.jpg''], File (plain ''x'')), ([''t'', ''2024-03''], Dir)])"
  by code_simp

section \<open>Properties of the history store and the undo engine\<close>












definition x_move :: move_record where
  "x_move = \<lparr>src = [''t'', ''sub'', ''x.txt''], dst = [''t'', ''Documents'', ''x.txt''],
     time = ''2024-03-01T00:00:00'', dry = False\<rparr>"

definition x_store :: store where
  "x_store = \<lparr>artifact = Stored (JArr [json_of_run ''2024-03-01T00:00:09'' [''t''] [x_move]]),
     writable = True\<rparr>"




text \<open>
  C4. The message of \<open>undo_last\<close> counts the records of the run, \<open>len(moves)\<close>, not the
  files moved back. With the recorded destination no longer there, nothing is restored
  and the filesystem stays as it is, yet the message says that one file was restored.
\<close>

theorem undo_last_counts_records:
  "\<not> path_exists [([''t''], Dir), ([''t'', ''sub''], Dir)] (dst x_move) \<and>
   undo_last example_lib x_store [([''t''], Dir), ([''t'', ''sub''], Dir)] =
     (Inr (Restored 1), \<lparr>artifact = Stored (JArr []), writable = True\<rparr>,
      [([''t''], Dir), ([''t'', ''sub''], Dir)])"
  by code_simp

text \<open>
  C8. A missing, unreadable or corrupt artifact loads as the empty list. An artifact
  that holds well-formed JSON is returned as \<open>json.load\<close> gives it, whatever it is: the
  object \<open>{"a": 1}\<close> is returned as it is, not as a list, and \<open>undo_last\<close> then raises
  on \<open>history.pop()\<close>.
\<close>

theorem load_move_history_returns_any_json:
  "load_move_history \<lparr>artifact = Missing, writable = w\<rparr> = JArr [] \<and>
   load_move_history \<lparr>artifact = Unreadable, writable = w\<rparr> = JArr [] \<and>
   load_move_history \<lparr>artifact = Corrupt, writable = w\<rparr> = JArr [] \<and>
   load_move_history \<lparr>artifact = Stored (JObj [(''a'', JNum 1)]), writable = w\<rparr> =
     JObj [(''a'', JNum 1)] \<and>
   undo_last lib \<lparr>artifact = Stored (JObj [(''a'', JNum 1)]), writable = w\<rparr> fs =
     (Inl TypeError, \<lparr>artifact = Stored (JObj [(''a'', JNum 1)]), writable = w\<rparr>, fs)"
  by (simp add: load_move_history_def undo_last_def)

end
